theory Spec2Isabelle
  imports Main
begin

unbundle bit_operations_syntax

section \<open>The Go library functions the server calls\<close>

text \<open>
  A Go \<open>string\<close> and a \<open>[]byte\<close> are byte sequences; both are \<^typ>\<open>string\<close> here
  (a \<^typ>\<open>char\<close> is one byte). The functions of this section model the standard library
  as far as \<open>server.go\<close> uses it.
\<close>

subsection \<open>fmt\<close>

text \<open>\<open>fmt.Fprintln(w, a)\<close> writes the operand and a newline in one write.\<close>

definition Fprintln :: "string \<Rightarrow> string" where
  "Fprintln a = a @ [CHR 0x0A]"

text \<open>With two operands \<open>Fprintln\<close> puts a space between them; it interprets no verbs.\<close>

definition Fprintln2 :: "string \<Rightarrow> string \<Rightarrow> string" where
  "Fprintln2 a b = a @ '' '' @ b @ [CHR 0x0A]"

subsection \<open>strings\<close>

text \<open>
  \<open>strings.TrimSpace\<close> removes leading and trailing white space as Unicode defines it.
  Six white-space characters are single ASCII bytes; the others are the UTF-8 encodings of
  U+0085, U+00A0, U+1680, U+2000 to U+200A, U+2028, U+2029, U+202F, U+205F and U+3000.
  A byte sequence decodes to one of these runes exactly when it is one of these encodings
  (invalid UTF-8 decodes to U+FFFD, which is no space), so trimming removes these byte
  patterns from the front and then from the back.
\<close>

definition asciiSpace :: "char \<Rightarrow> bool" where
  "asciiSpace c = (c \<in> set [CHR 0x09, CHR 0x0A, CHR 0x0B, CHR 0x0C, CHR 0x0D, CHR 0x20])"

definition unicodeSpace :: "string list" where
  "unicodeSpace =
     [[CHR 0xC2, CHR 0x85], [CHR 0xC2, CHR 0xA0], [CHR 0xE1, CHR 0x9A, CHR 0x80],
      [CHR 0xE2, CHR 0x80, CHR 0x80], [CHR 0xE2, CHR 0x80, CHR 0x81],
      [CHR 0xE2, CHR 0x80, CHR 0x82], [CHR 0xE2, CHR 0x80, CHR 0x83],
      [CHR 0xE2, CHR 0x80, CHR 0x84], [CHR 0xE2, CHR 0x80, CHR 0x85],
      [CHR 0xE2, CHR 0x80, CHR 0x86], [CHR 0xE2, CHR 0x80, CHR 0x87],
      [CHR 0xE2, CHR 0x80, CHR 0x88], [CHR 0xE2, CHR 0x80, CHR 0x89],
      [CHR 0xE2, CHR 0x80, CHR 0x8A], [CHR 0xE2, CHR 0x80, CHR 0xA8],
      [CHR 0xE2, CHR 0x80, CHR 0xA9], [CHR 0xE2, CHR 0x80, CHR 0xAF],
      [CHR 0xE2, CHR 0x81, CHR 0x9F], [CHR 0xE3, CHR 0x80, CHR 0x80]]"

text \<open>The number of bytes of the white-space rune a string starts with (0 if none).\<close>

definition spaceWidth :: "string \<Rightarrow> nat" where
  "spaceWidth s =
     (case s of
        [] \<Rightarrow> 0
      | c # _ \<Rightarrow>
          if asciiSpace c then 1
          else (case find (\<lambda>p. take (length p) s = p) unicodeSpace of
                  None \<Rightarrow> 0
                | Some p \<Rightarrow> length p))"

text \<open>The number of bytes of the white-space rune a string ends with (0 if none).\<close>

definition lastSpaceWidth :: "string \<Rightarrow> nat" where
  "lastSpaceWidth s =
     (case rev s of
        [] \<Rightarrow> 0
      | c # _ \<Rightarrow>
          if asciiSpace c then 1
          else (case find (\<lambda>p. take (length p) (rev s) = rev p) unicodeSpace of
                  None \<Rightarrow> 0
                | Some p \<Rightarrow> length p))"

function TrimLeft :: "string \<Rightarrow> string" where
  "TrimLeft s = (if spaceWidth s = 0 then s else TrimLeft (drop (spaceWidth s) s))"
  by pat_completeness auto
termination
  by (relation "measure length") (auto simp: spaceWidth_def split: list.splits)

function TrimRight :: "string \<Rightarrow> string" where
  "TrimRight s =
     (if lastSpaceWidth s = 0 then s else TrimRight (take (length s - lastSpaceWidth s) s))"
  by pat_completeness auto
termination
  by (relation "measure length") (auto simp: lastSpaceWidth_def split: list.splits)

definition TrimSpace :: "string \<Rightarrow> string" where
  "TrimSpace s = TrimRight (TrimLeft s)"

text \<open>
  \<open>strings.ToLower\<close>: \<open>A\<close> to \<open>Z\<close> become \<open>a\<close> to \<open>z\<close>. Of the runes outside ASCII
  only U+0130 (bytes C4 B0) and U+212A (bytes E2 84 AA) have an ASCII lower case, \<open>i\<close> and
  \<open>k\<close>. Every other byte from 0x80 on is kept as it is: Go writes the lower case of its
  rune, which is again outside ASCII, so a comparison of the result with an ASCII literal,
  the only use the server makes of it, is decided as in Go.
\<close>

definition lowerASCII :: "char \<Rightarrow> char" where
  "lowerASCII c =
     (case map_of (zip ''ABCDEFGHIJKLMNOPQRSTUVWXYZ'' ''abcdefghijklmnopqrstuvwxyz'') c of
        None \<Rightarrow> c
      | Some l \<Rightarrow> l)"

function ToLower :: "string \<Rightarrow> string" where
  "ToLower [] = []"
| "ToLower (c # s) =
     (if c = CHR 0xC4 \<and> take 1 s = [CHR 0xB0] then CHR ''i'' # ToLower (drop 1 s)
      else if c = CHR 0xE2 \<and> take 2 s = [CHR 0x84, CHR 0xAA] then CHR ''k'' # ToLower (drop 2 s)
      else lowerASCII c # ToLower s)"
  by pat_completeness auto
termination
  by (relation "measure length") auto

text \<open>
  \<open>strings.ReplaceAll(s, old, new)\<close> for a one-byte \<open>old\<close>, as in both calls of the
  server: every occurrence of the byte is replaced.
\<close>

definition ReplaceAll :: "string \<Rightarrow> char \<Rightarrow> string \<Rightarrow> string" where
  "ReplaceAll s old new = concat (map (\<lambda>c. if c = old then new else [c]) s)"

subsection \<open>encoding/hex\<close>

definition hextable :: string where
  "hextable = ''0123456789abcdef''"

definition EncodeToString :: "string \<Rightarrow> string" where
  "EncodeToString src =
     concat (map (\<lambda>v. [hextable ! (of_char v div 16), hextable ! (of_char v mod 16)]) src)"

subsection \<open>crypto/sha256\<close>

text \<open>
  SHA-256 as \<open>sha256.Sum256\<close> computes it. A \<open>uint32\<close> is an \<^typ>\<open>int\<close> in
  \<open>[0, 2^32)\<close>; every addition and left shift is followed by the reduction modulo
  \<open>2^32\<close> that the machine performs.
\<close>

type_synonym uint32 = int

definition u32 :: "int \<Rightarrow> uint32" where
  "u32 x = x mod 4294967296"

definition RotateRight32 :: "uint32 \<Rightarrow> nat \<Rightarrow> uint32" where
  "RotateRight32 x k = drop_bit k x OR u32 (push_bit (32 - k) x)"

definition complement32 :: "uint32 \<Rightarrow> uint32" where
  "complement32 x = x XOR 0xffffffff"

text \<open>
  The round constants (the table \<open>_K\<close> of the Go source): the first 32 bits of the
  fractional parts of the cube roots of the first 64 primes.
\<close>

definition K256 :: "uint32 list" where
  "K256 =
    [1116352408, 1899447441, 3049323471, 3921009573, 961987163, 1508970993,
     2453635748, 2870763221, 3624381080, 310598401, 607225278, 1426881987,
     1925078388, 2162078206, 2614888103, 3248222580, 3835390401, 4022224774,
     264347078, 604807628, 770255983, 1249150122, 1555081692, 1996064986,
     2554220882, 2821834349, 2952996808, 3210313671, 3336571891, 3584528711,
     113926993, 338241895, 666307205, 773529912, 1294757372, 1396182291,
     1695183700, 1986661051, 2177026350, 2456956037, 2730485921, 2820302411,
     3259730800, 3345764771, 3516065817, 3600352804, 4094571909, 275423344,
     430227734, 506948616, 659060556, 883997877, 958139571, 1322822218,
     1537002063, 1747873779, 1955562222, 2024104815, 2227730452, 2361852424,
     2428436474, 2756734187, 3204031479, 3329325298]"

type_synonym digest =
  "uint32 \<times> uint32 \<times> uint32 \<times> uint32 \<times> uint32 \<times> uint32 \<times> uint32 \<times> uint32"

text \<open>
  The initial hash value: the first 32 bits of the fractional parts of the square roots
  of the first 8 primes.
\<close>

definition init256 :: digest where
  "init256 =
     (1779033703, 3144134277, 1013904242, 2773480762,
      1359893119, 2600822924, 528734635, 1541459225)"

text \<open>The length in bits, as eight big-endian bytes.\<close>

definition PutUint64 :: "int \<Rightarrow> int list" where
  "PutUint64 v = map (\<lambda>i. drop_bit i v mod 256) [56, 48, 40, 32, 24, 16, 8, 0]"

text \<open>Padding: the byte 0x80, zero bytes up to 56 modulo 64, the length.\<close>

definition pad256 :: "int list \<Rightarrow> int list" where
  "pad256 p =
     p @ [0x80] @ replicate ((119 - length p mod 64) mod 64) 0 @
     PutUint64 (push_bit 3 (int (length p)) mod 18446744073709551616)"

fun be_words :: "int list \<Rightarrow> uint32 list" where
  "be_words (a # b # c # d # r) =
     (push_bit 24 a OR push_bit 16 b OR push_bit 8 c OR d) # be_words r"
| "be_words _ = []"

text \<open>The message schedule \<open>w[16..63]\<close>, kept with the newest word first.\<close>

fun schedule :: "nat \<Rightarrow> uint32 list \<Rightarrow> uint32 list" where
  "schedule 0 w = w"
| "schedule (Suc n) w =
     (let v1 = w ! 1;
          t1 = RotateRight32 v1 17 XOR RotateRight32 v1 19 XOR drop_bit 10 v1;
          v2 = w ! 14;
          t2 = RotateRight32 v2 7 XOR RotateRight32 v2 18 XOR drop_bit 3 v2
      in schedule n (u32 (t1 + w ! 6 + t2 + w ! 15) # w))"

fun round256 :: "digest \<Rightarrow> uint32 \<times> uint32 \<Rightarrow> digest" where
  "round256 (a, b, c, d, e, f, g, h) (k, w) =
     (let t1 = u32 (h + (RotateRight32 e 6 XOR RotateRight32 e 11 XOR RotateRight32 e 25)
                  + ((e AND f) XOR (complement32 e AND g)) + k + w);
          t2 = u32 ((RotateRight32 a 2 XOR RotateRight32 a 13 XOR RotateRight32 a 22)
                  + ((a AND b) XOR (a AND c) XOR (b AND c)))
      in (u32 (t1 + t2), a, b, c, u32 (d + t1), e, f, g))"

fun digest_add :: "digest \<Rightarrow> digest \<Rightarrow> digest" where
  "digest_add (a, b, c, d, e, f, g, h) (a', b', c', d', e', f', g', h') =
     (u32 (a + a'), u32 (b + b'), u32 (c + c'), u32 (d + d'),
      u32 (e + e'), u32 (f + f'), u32 (g + g'), u32 (h + h'))"

definition block :: "digest \<Rightarrow> uint32 list \<Rightarrow> digest" where
  "block hs ws = digest_add hs (foldl round256 hs (zip K256 (rev (schedule 48 (rev ws)))))"

fun blocks :: "digest \<Rightarrow> uint32 list \<Rightarrow> digest" where
  "blocks hs ws =
     (if length ws < 16 then hs else blocks (block hs (take 16 ws)) (drop 16 ws))"

definition word_bytes :: "uint32 \<Rightarrow> string" where
  "word_bytes x =
     map char_of [drop_bit 24 x mod 256, drop_bit 16 x mod 256, drop_bit 8 x mod 256, x mod 256]"

definition Sum256 :: "string \<Rightarrow> string" where
  "Sum256 data =
     (case blocks init256 (be_words (pad256 (map of_char data))) of
        (a, b, c, d, e, f, g, h) \<Rightarrow> concat (map word_bytes [a, b, c, d, e, f, g, h]))"

section \<open>server.go\<close>

subsection \<open>Keys and password digests\<close>

text \<open>
  \<open>generateRegistrationKey\<close>: the argument is the content of the 20-byte slice after
  \<open>rand.Read\<close> has filled it; the code is the first 20 characters of its hex encoding.
\<close>

definition generateRegistrationKey :: "string \<Rightarrow> string" where
  "generateRegistrationKey key = take 20 (EncodeToString key)"

definition hashPassword :: "string \<Rightarrow> string" where
  "hashPassword password = EncodeToString (Sum256 password)"

subsection \<open>The users table\<close>

text \<open>
  The table \<open>users\<close> of \<open>initDatabase\<close> is the list of its rows \<open>(username, password)\<close>
  in insertion order; the \<open>AUTOINCREMENT\<close> id of a row is its position. A Go string is
  never \<open>NULL\<close>, so of the constraints only \<open>UNIQUE\<close> on \<open>username\<close> can fail.
  \<open>INSERT\<close> is \<open>db.Exec("INSERT INTO users (username, password) VALUES (?, ?)", usr, hashed)\<close>:
  the error text, or the table with the new row.
  \<open>SELECT_password\<close> is \<open>db.QueryRow("SELECT password FROM users WHERE username = ?", usr)\<close>
  followed by \<open>Scan\<close>: the password of the first matching row, \<open>None\<close> for \<open>sql.ErrNoRows\<close>.
\<close>

type_synonym users = "(string \<times> string) list"

definition INSERT :: "string \<Rightarrow> string \<Rightarrow> users \<Rightarrow> string + users" where
  "INSERT usr hashed rows =
     (if usr \<in> set (map fst rows) then Inl ''UNIQUE constraint failed: users.username''
      else Inr (rows @ [(usr, hashed)]))"

definition SELECT_password :: "string \<Rightarrow> users \<Rightarrow> string option" where
  "SELECT_password usr rows = map_of rows usr"

subsection \<open>Connections\<close>

text \<open>
  A connection is identified by a number. What its client sends is a list of segments: the
  bytes that are available at the socket each time a read is served. When the list is
  exhausted the stream is closed and a read fails. \<open>Read n\<close> is \<open>conn.Read\<close> with a buffer
  of \<open>n\<close> bytes: it takes at most \<open>n\<close> bytes of the first segment and leaves the rest of
  that segment for the next read; a read is not served by an empty segment.
\<close>

type_synonym Conn = nat

fun Read :: "nat \<Rightarrow> string list \<Rightarrow> (string \<times> string list) option" where
  "Read n [] = None"
| "Read n (p # ps) =
     (if p = [] then Read n ps
      else if length p \<le> n then Some (p, ps)
      else Some (take n p, drop n p # ps))"

text \<open>
  \<open>bufio.Reader.ReadString('\n')\<close> on a reader with the default buffer of 4096 bytes.
  \<open>buf\<close> is the unread part of the buffer and \<open>full\<close> the buffers already collected
  for this line. The result is the line with its delimiter, the unread part of the buffer
  and the segments not yet read from the connection; \<open>None\<close> when the connection fails
  before a delimiter arrives (the server then returns, whatever was read).
\<close>

function ReadString ::
  "string \<Rightarrow> string \<Rightarrow> string list \<Rightarrow> (string \<times> string \<times> string list) option" where
  "ReadString full buf segs =
     (if CHR 0x0A \<in> set buf then
        (let line = takeWhile (\<lambda>c. c \<noteq> CHR 0x0A) buf @ [CHR 0x0A]
         in Some (full @ line, drop (length line) buf, segs))
      else if 4096 \<le> length buf then ReadString (full @ buf) [] segs
      else (case Read (4096 - length buf) segs of
              None \<Rightarrow> None
            | Some (p, segs') \<Rightarrow> ReadString full (buf @ p) segs'))"
  by pat_completeness auto
termination
proof (relation "measures [\<lambda>(full, buf, segs). sum_list (map (\<lambda>p. Suc (length p)) segs),
                          \<lambda>(full, buf, segs). length buf]")
  show "wf (measures [\<lambda>(full :: string, buf :: string, segs :: string list).
                        sum_list (map (\<lambda>p. Suc (length p)) segs),
                      \<lambda>(full, buf, segs). length buf])"
    by simp
next
  fix full buf :: string and segs :: "string list"
  assume "CHR 0x0A \<notin> set buf" "4096 \<le> length buf"
  then show "((full @ buf, [], segs), (full, buf, segs))
      \<in> measures [\<lambda>(full, buf, segs). sum_list (map (\<lambda>p. Suc (length p)) segs),
                  \<lambda>(full, buf, segs). length buf]"
    by auto
next
  fix full buf :: string and segs :: "string list" and x2 p segs'
  assume a: "\<not> 4096 \<le> length buf" "Read (4096 - length buf) segs = Some x2" "(p, segs') = x2"
  have less: "sum_list (map (\<lambda>p. Suc (length p)) qs') < sum_list (map (\<lambda>p. Suc (length p)) qs)"
    if "Read n qs = Some (q, qs')" "0 < n" for n qs q qs'
    using that by (induction qs) (auto split: if_splits)
  from a have "sum_list (map (\<lambda>p. Suc (length p)) segs') < sum_list (map (\<lambda>p. Suc (length p)) segs)"
    by (intro less [of "4096 - length buf" segs p segs']) auto
  then show "((full, buf @ p, segs'), (full, buf, segs))
      \<in> measures [\<lambda>(full, buf, segs). sum_list (map (\<lambda>p. Suc (length p)) segs),
                  \<lambda>(full, buf, segs). length buf]"
    by simp
qed

subsection \<open>The shared state\<close>

text \<open>
  \<open>Client\<close> is the struct of the source. The global \<open>clients\<close>, a Go map keyed by the
  connection, is an association list with one entry per key: \<open>clients[conn] = v\<close> is
  \<open>map_put\<close> and \<open>delete(clients, conn)\<close> is \<open>map_delete\<close>. \<open>wire\<close> records, for every
  connection, the writes the server has made on it, oldest first.
\<close>

record Client =
  conn :: Conn
  username :: string

fun map_put :: "'k \<Rightarrow> 'v \<Rightarrow> ('k \<times> 'v) list \<Rightarrow> ('k \<times> 'v) list" where
  "map_put k v [] = [(k, v)]"
| "map_put k v ((k', v') # m) = (if k' = k then (k, v) # m else (k', v') # map_put k v m)"

definition map_delete :: "'k \<Rightarrow> ('k \<times> 'v) list \<Rightarrow> ('k \<times> 'v) list" where
  "map_delete k m = filter (\<lambda>(k', v'). k' \<noteq> k) m"

text \<open>
  Where the goroutine that runs \<open>handleClient(conn)\<close> stands. Between two of these points
  it touches the shared state once, under the lock of that state, so other goroutines run
  only at these points:
  \<^item> \<open>Accepted segs\<close>: spawned, nothing executed; \<open>segs\<close> is what the client will send;
  \<^item> \<open>LoggedIn usr segs\<close>: the welcome line is written (line 179);
  \<^item> \<open>Registered usr segs\<close>: the session is in \<open>clients\<close> (line 184);
  \<^item> \<open>Chatting usr segs\<close>: at the head of the read loop (line 190);
  \<^item> \<open>Leaving usr\<close>: a read failed and the session is deleted from \<open>clients\<close> (line 195);
  \<^item> \<open>Closed\<close>: returned; the deferred \<open>conn.Close()\<close> has run.
  \<open>segs\<close> is what is still to be read from the connection itself.
\<close>

datatype goroutine =
    Accepted "string list"
  | LoggedIn string "string list"
  | Registered string "string list"
  | Chatting string "string list"
  | Leaving string
  | Closed

record server =
  masterRegKey :: string
  db :: users
  clients :: "(Conn \<times> Client) list"
  wire :: "Conn \<Rightarrow> string list"
  goroutines :: "Conn \<Rightarrow> goroutine"

definition Write :: "Conn \<Rightarrow> string \<Rightarrow> server \<Rightarrow> server" where
  "Write c b s = s\<lparr>wire := (wire s)(c := wire s c @ [b])\<rparr>"

subsection \<open>broadcast\<close>

text \<open>
  The loop over \<open>clients\<close>, run under the mutex. Go ranges over a map in an unspecified
  order; the writes go to different connections, so the order does not show in the result.
\<close>

definition broadcast :: "string \<Rightarrow> Conn \<Rightarrow> server \<Rightarrow> server" where
  "broadcast message sender s =
     foldl (\<lambda>s (c, client). if c \<noteq> sender then Write c (Fprintln message) s else s)
       s (clients s)"

subsection \<open>handleClient\<close>

text \<open>
  The \<open>register\<close> branch (lines 102 to 147), from the reader's state: the writes on the
  connection and the table afterwards. Every path returns.
\<close>

definition handleClient_register ::
  "string \<Rightarrow> users \<Rightarrow> string \<Rightarrow> string list \<Rightarrow> string list \<times> users" where
  "handleClient_register key rows buf segs =
     (let out1 = [Fprintln ''Enter the server's registration code: ''] in
      case ReadString [] buf segs of
        None \<Rightarrow> (out1, rows)
      | Some (regAttempt, buf1, segs1) \<Rightarrow>
          let regAttempt = TrimSpace regAttempt;
              regAttempt = ReplaceAll regAttempt (CHR ''['') [];
              regAttempt = ReplaceAll regAttempt (CHR '']'') []
          in if regAttempt \<noteq> key
             then (out1 @ [Fprintln ''Invalid registration code. Closing connection.''], rows)
             else
               let out2 = out1 @ [Fprintln ''Enter your desired username: ''] in
               case ReadString [] buf1 segs1 of
                 None \<Rightarrow> (out2, rows)
               | Some (usr, buf2, segs2) \<Rightarrow>
                   let usr = TrimSpace usr;
                       out3 = out2 @ [Fprintln ''Enter your desired password (typing not hidden): '']
                   in case ReadString [] buf2 segs2 of
                        None \<Rightarrow> (out3, rows)
                      | Some (pwd, buf3, segs3) \<Rightarrow>
                          let pwd = TrimSpace pwd;
                              hashed = hashPassword pwd
                          in case INSERT usr hashed rows of
                               Inl err \<Rightarrow>
                                 (out3 @ [Fprintln2 (''Failed to register: %v'' @ [CHR 0x0A]) err], rows)
                             | Inr rows' \<Rightarrow>
                                 (out3 @ [Fprintln ''Registration successful! You can now login.''],
                                  rows'))"

text \<open>
  The \<open>login\<close> branch up to the welcome line (lines 150 to 179): the writes on the
  connection and where the goroutine stands. The bytes the reader has buffered are not
  passed on: the read loop reads from the connection.
\<close>

definition handleClient_login ::
  "users \<Rightarrow> string \<Rightarrow> string list \<Rightarrow> string list \<times> goroutine" where
  "handleClient_login rows buf segs =
     (let out1 = [Fprintln ''Username: ''] in
      case ReadString [] buf segs of
        None \<Rightarrow> (out1, Closed)
      | Some (usr, buf1, segs1) \<Rightarrow>
          let usr = TrimSpace usr;
              out2 = out1 @ [Fprintln ''Password (typing not hidden): '']
          in case ReadString [] buf1 segs1 of
               None \<Rightarrow> (out2, Closed)
             | Some (pwd, buf2, segs2) \<Rightarrow>
                 let pwd = TrimSpace pwd in
                 case SELECT_password usr rows of
                   None \<Rightarrow> (out2 @ [Fprintln ''Invalid username or password.''], Closed)
                 | Some storedPassword \<Rightarrow>
                     if hashPassword pwd \<noteq> storedPassword
                     then (out2 @ [Fprintln ''Invalid username or password.''], Closed)
                     else (out2 @ [''Welcome back, '' @ usr @ ''!'' @ [CHR 0x0A]],
                           LoggedIn usr segs2))"

text \<open>Lines 90 to 205 up to the first access to \<open>clients\<close>.\<close>

definition handleClient_dialogue ::
  "string \<Rightarrow> users \<Rightarrow> string list \<Rightarrow> string list \<times> users \<times> goroutine" where
  "handleClient_dialogue key rows segs =
     (let out0 = [Fprintln ''Welcome to the secure chat server!'',
                  Fprintln ''Enter 'login' or 'register': ''] in
      case ReadString [] [] segs of
        None \<Rightarrow> (out0, rows, Closed)
      | Some (userChoice, buf, segs1) \<Rightarrow>
          let userChoice = TrimSpace userChoice in
          if ToLower userChoice = ''register'' then
            (case handleClient_register key rows buf segs1 of
               (out, rows') \<Rightarrow> (out0 @ out, rows', Closed))
          else if ToLower userChoice = ''login'' then
            (case handleClient_login rows buf segs1 of
               (out, g) \<Rightarrow> (out0 @ out, rows, g))
          else (out0 @ [Fprintln ''Invalid choice. Closing.''], rows, Closed))"

text \<open>
  One step of the goroutine of connection \<open>c\<close>: from the point where it stands to the
  next one.
\<close>

definition handleClient :: "Conn \<Rightarrow> server \<Rightarrow> server" where
  "handleClient c s =
     (case goroutines s c of
        Accepted segs \<Rightarrow>
          (case handleClient_dialogue (masterRegKey s) (db s) segs of
             (out, rows, g) \<Rightarrow>
               s\<lparr>db := rows, wire := (wire s)(c := wire s c @ out),
                 goroutines := (goroutines s)(c := g)\<rparr>)
      | LoggedIn usr segs \<Rightarrow>
          s\<lparr>clients := map_put c \<lparr>conn = c, username = usr\<rparr> (clients s),
            goroutines := (goroutines s)(c := Registered usr segs)\<rparr>
      | Registered usr segs \<Rightarrow>
          (broadcast (usr @ '' has joined the chat'') c s)
            \<lparr>goroutines := (goroutines s)(c := Chatting usr segs)\<rparr>
      | Chatting usr segs \<Rightarrow>
          (case Read 1024 segs of
             None \<Rightarrow>
               s\<lparr>clients := map_delete c (clients s),
                 goroutines := (goroutines s)(c := Leaving usr)\<rparr>
           | Some (message, segs') \<Rightarrow>
               (broadcast (usr @ '': '' @ message) c s)
                 \<lparr>goroutines := (goroutines s)(c := Chatting usr segs')\<rparr>)
      | Leaving usr \<Rightarrow>
          (broadcast (usr @ '' has left the chat'') c s)
            \<lparr>goroutines := (goroutines s)(c := Closed)\<rparr>
      | Closed \<Rightarrow> s)"

subsection \<open>main\<close>

text \<open>
  The state when \<open>main\<close> starts to accept: \<open>key\<close> is the random bytes of the registration
  key and \<open>accepted c\<close> what the client of connection \<open>c\<close> sends. A schedule is the list
  of the connections whose goroutines take the next steps.
\<close>

definition main :: "string \<Rightarrow> (Conn \<Rightarrow> string list) \<Rightarrow> server" where
  "main key accepted =
     \<lparr>masterRegKey = generateRegistrationKey key, db = [], clients = [],
      wire = (\<lambda>c. []), goroutines = (\<lambda>c. Accepted (accepted c))\<rparr>"

definition run :: "Conn list \<Rightarrow> server \<Rightarrow> server" where
  "run sched s = foldl (\<lambda>s c. handleClient c s) s sched"

section \<open>Vocabulary of the properties\<close>

text \<open>
  \<open>begins stream ls\<close>: the byte stream of a client starts with the lines \<open>ls\<close>, each
  followed by its newline, whatever the segments it arrives in.
\<close>

definition begins :: "string \<Rightarrow> string list \<Rightarrow> bool" where
  "begins stream ls =
     (list_all (\<lambda>l. CHR 0x0A \<notin> set l) ls \<and>
      take (length (concat (map Fprintln ls))) stream = concat (map Fprintln ls))"

text \<open>The two lines every connection is greeted with (lines 90 and 91).\<close>

definition greeting :: "string list" where
  "greeting = [Fprintln ''Welcome to the secure chat server!'',
               Fprintln ''Enter 'login' or 'register': '']"

text \<open>The connections that have an entry in \<open>clients\<close>.\<close>

definition registered :: "server \<Rightarrow> Conn set" where
  "registered s = fst ` set (clients s)"

text \<open>
  The user a goroutine has authenticated, and the user under which it stands in
  \<open>clients\<close>.
\<close>

fun authenticated :: "goroutine \<Rightarrow> string option" where
  "authenticated (LoggedIn usr segs) = Some usr"
| "authenticated (Registered usr segs) = Some usr"
| "authenticated (Chatting usr segs) = Some usr"
| "authenticated (Leaving usr) = Some usr"
| "authenticated _ = None"

fun in_clients :: "goroutine \<Rightarrow> string option" where
  "in_clients (Registered usr segs) = Some usr"
| "in_clients (Chatting usr segs) = Some usr"
| "in_clients _ = None"

text \<open>
  What holds of the shared state between any two steps: \<open>clients\<close> has one entry per
  key, an entry belongs to a goroutine between its insertion and its deletion and names
  the user of that goroutine, and an authenticated user has a row in the table.
\<close>

definition consistent :: "server \<Rightarrow> bool" where
  "consistent s =
     (distinct (map fst (clients s)) \<and>
      (\<forall>c client. (c, client) \<in> set (clients s) \<longrightarrow>
         conn client = c \<and> in_clients (goroutines s c) = Some (username client)) \<and>
      (\<forall>c usr. authenticated (goroutines s c) = Some usr \<longrightarrow> usr \<in> fst ` set (db s)))"

section \<open>A run of the server\<close>

text \<open>
  The end-to-end scenario: the registration key is \<open>0102030405060708090a\<close>; connection 1
  registers \<open>alice\<close> (with the key in brackets), connection 2 registers \<open>bob\<close>,
  connection 3 logs \<open>alice\<close> in, connection 4 logs \<open>bob\<close> in and then sends a line and
  1500 further bytes. In \<open>chatting0\<close> both are in the read loop. The other connections
  try what should fail: a wrong password (5), a user who does not exist (6), a password
  with a space behind it (7), the name \<open>alice\<close> once more (8, 13), brackets in front of the
  key and blanks around the name (9), a wrong key (10), and an empty name (11, 12).
\<close>

definition key0 :: string where
  "key0 = [CHR 0x01, CHR 0x02, CHR 0x03, CHR 0x04, CHR 0x05, CHR 0x06, CHR 0x07, CHR 0x08,
           CHR 0x09, CHR 0x0A, CHR 0x0B, CHR 0x0C, CHR 0x0D, CHR 0x0E, CHR 0x0F, CHR 0x10,
           CHR 0x11, CHR 0x12, CHR 0x13, CHR 0x14]"

definition accepted0 :: "Conn \<Rightarrow> string list" where
  "accepted0 c =
     (if c = 1 then [Fprintln ''register'', Fprintln ''[0102030405060708090a]'',
                     Fprintln ''alice'' @ Fprintln ''pw1'']
      else if c = 2 then [Fprintln ''REGISTER'' @ Fprintln ''0102030405060708090a'' @
                          Fprintln ''bob'' @ Fprintln ''pw2'']
      else if c = 3 then [Fprintln ''login'', Fprintln ''alice'', Fprintln ''pw1'']
      else if c = 4 then [Fprintln ''login'', Fprintln ''bob'', Fprintln ''pw2'',
                          Fprintln ''hello'', replicate 1500 (CHR ''x'')]
      else if c = 5 then [Fprintln ''login'', Fprintln ''alice'', Fprintln ''pw2'']
      else if c = 6 then [Fprintln ''login'', Fprintln ''carol'', Fprintln ''pw1'']
      else if c = 7 then [Fprintln ''login'', Fprintln ''alice'', Fprintln ''pw1 '']
      else if c = 8 then [Fprintln ''register'', Fprintln ''0102030405060708090a'',
                          Fprintln '' alice'', Fprintln ''pw3'']
      else if c = 9 then [Fprintln ''register'', Fprintln ''[[0102030405060708090a'',
                          Fprintln '' dave '', Fprintln ''pw4'']
      else if c = 10 then [Fprintln ''register'', Fprintln ''0102030405060708090b'',
                           Fprintln ''erin'', Fprintln ''pw5'']
      else if c = 11 then [Fprintln ''register'', Fprintln ''0102030405060708090a'',
                           Fprintln [], Fprintln ''pw6'']
      else if c = 12 then [Fprintln ''login'', Fprintln [], Fprintln ''pw6'']
      else if c = 13 then [Fprintln ''Register'', Fprintln ''0102030405060708090a'',
                           Fprintln ''alice '', Fprintln ''pw7'']
      else [])"

definition chatting0 :: server where
  "chatting0 = run [1, 2, 3, 3, 3, 4, 4, 4] (main key0 accepted0)"

declare TrimLeft.simps [simp del] TrimRight.simps [simp del] ReadString.simps [simp del]

section \<open>Reading from a connection\<close>

lemma Read_None: "Read n segs = None \<longleftrightarrow> concat segs = []"
  by (induction segs) auto

lemma Read_Some:
  "Read n segs = Some (p, segs') \<Longrightarrow> p @ concat segs' = concat segs \<and> length p \<le> n"
  by (induction segs) (auto split: if_splits)

lemma Read_Some_nonempty:
  "Read n segs = Some (p, segs') \<Longrightarrow> 0 < n \<Longrightarrow> p \<noteq> []"
  by (induction segs) (auto split: if_splits)


lemma take_append_eq:
  "take (length a + n) s = a @ b \<longleftrightarrow> (\<exists>r. s = a @ r \<and> take n r = b)"
proof
  assume h: "take (length a + n) s = a @ b"
  have "take (length a) (take (length a + n) s) = take (length a) (a @ b)"
    using h by simp
  then have "take (length a) s = a" by simp
  then have r: "s = a @ drop (length a) s"
    using append_take_drop_id [of "length a" s] by simp
  from h have "take n (drop (length a) s) = b"
    by (subst (asm) r) simp
  with r show "\<exists>r. s = a @ r \<and> take n r = b" by blast
next
  assume "\<exists>r. s = a @ r \<and> take n r = b"
  then show "take (length a + n) s = a @ b" by auto
qed

lemma begins_Cons:
  "begins stream (l # ls) \<longleftrightarrow>
     CHR 0x0A \<notin> set l \<and> (\<exists>rest. stream = l @ CHR 0x0A # rest \<and> begins rest ls)"
  using take_append_eq [of "l @ [CHR 0x0A]" "length (concat (map Fprintln ls))" stream
      "concat (map Fprintln ls)"]
  by (auto simp: begins_def Fprintln_def)

lemma split_line:
  assumes "buf @ rest = l @ CHR 0x0A # rest2" "CHR 0x0A \<notin> set l" "CHR 0x0A \<in> set buf"
  shows "takeWhile (\<lambda>c. c \<noteq> CHR 0x0A) buf = l \<and> drop (Suc (length l)) buf @ rest = rest2"
proof -
  from assms(1) consider us where "buf = l @ us" "us @ rest = CHR 0x0A # rest2"
    | us where "buf @ us = l" "rest = us @ CHR 0x0A # rest2"
    by (auto simp: append_eq_append_conv2)
  then show ?thesis
  proof cases
    case 1
    with assms(2,3) obtain us' where "us = CHR 0x0A # us'"
      by (cases us) auto
    with 1 assms(2) show ?thesis
      by (auto simp: takeWhile_tail)
  next
    case 2
    with assms(2,3) show ?thesis by auto
  qed
qed

lemma prefix_line:
  assumes "buf @ rest = l @ CHR 0x0A # rest2" "CHR 0x0A \<notin> set buf"
  shows "\<exists>l'. l = buf @ l' \<and> rest = l' @ CHR 0x0A # rest2"
proof -
  from assms(1) consider us where "buf = l @ us" "us @ rest = CHR 0x0A # rest2"
    | us where "buf @ us = l" "rest = us @ CHR 0x0A # rest2"
    by (auto simp: append_eq_append_conv2)
  then show ?thesis
  proof cases
    case 1
    with assms(2) have "us = []" by (cases us) auto
    with 1 show ?thesis by auto
  next
    case 2
    then show ?thesis by auto
  qed
qed

lemma ReadString_line:
  "buf @ concat segs = l @ CHR 0x0A # rest \<Longrightarrow> CHR 0x0A \<notin> set l \<Longrightarrow>
   \<exists>buf' segs'. ReadString full buf segs = Some (full @ l @ [CHR 0x0A], buf', segs') \<and>
      buf' @ concat segs' = rest"
proof (induction full buf segs arbitrary: l rule: ReadString.induct)
  case (1 full buf segs)
  show ?case
  proof (cases "CHR 0x0A \<in> set buf")
    case True
    from split_line [OF "1.prems"(1,2) True] True show ?thesis
      by (subst ReadString.simps) (simp add: Let_def)
  next
    case nonl: False
    from prefix_line [OF "1.prems"(1) nonl] obtain l' where
      l': "l = buf @ l'" "concat segs = l' @ CHR 0x0A # rest"
      by blast
    show ?thesis
    proof (cases "4096 \<le> length buf")
      case True
      have "\<exists>buf' segs'. ReadString (full @ buf) [] segs
                = Some ((full @ buf) @ l' @ [CHR 0x0A], buf', segs') \<and> buf' @ concat segs' = rest"
        using "1.IH"(1) [OF nonl True, of l'] l' "1.prems"(2) by simp
      with nonl True l' show ?thesis
        by (subst ReadString.simps) simp
    next
      case False
      from l' have "concat segs \<noteq> []" by simp
      then obtain p segs' where rd: "Read (4096 - length buf) segs = Some (p, segs')"
        using Read_None [of "4096 - length buf" segs] by (cases "Read (4096 - length buf) segs") auto
      from Read_Some [OF rd] have "(buf @ p) @ concat segs' = l @ CHR 0x0A # rest"
        using "1.prems"(1) by simp
      from "1.IH"(2) [OF nonl False rd refl this "1.prems"(2)]
      show ?thesis
        using nonl False rd by (subst ReadString.simps) simp
    qed
  qed
qed

lemma ReadString_begins:
  assumes "begins (buf @ concat segs) (l # ls)"
  shows "\<exists>buf' segs'. ReadString [] buf segs = Some (Fprintln l, buf', segs') \<and>
           begins (buf' @ concat segs') ls"
proof -
  from assms obtain rest where
    "CHR 0x0A \<notin> set l" "buf @ concat segs = l @ CHR 0x0A # rest" "begins rest ls"
    by (auto simp: begins_Cons)
  with ReadString_line [of buf segs l rest "[]"] show ?thesis
    by (auto simp: Fprintln_def)
qed

section \<open>The dialogue on a stream of lines\<close>

lemma login_dialogue:
  assumes "begins (concat segs) [choice, u, p]"
    and "ToLower (TrimSpace (Fprintln choice)) = ''login''"
  shows "\<exists>segs'. handleClient_dialogue key rows segs =
     (if SELECT_password (TrimSpace (Fprintln u)) rows = Some (hashPassword (TrimSpace (Fprintln p)))
      then (greeting @ [Fprintln ''Username: '', Fprintln ''Password (typing not hidden): '',
              ''Welcome back, '' @ TrimSpace (Fprintln u) @ ''!'' @ [CHR 0x0A]],
            rows, LoggedIn (TrimSpace (Fprintln u)) segs')
      else (greeting @ [Fprintln ''Username: '', Fprintln ''Password (typing not hidden): '',
              Fprintln ''Invalid username or password.''],
            rows, Closed))"
proof -
  from ReadString_begins [of "[]" segs choice "[u, p]"] assms(1) obtain b1 s1 where
    r1: "ReadString [] [] segs = Some (Fprintln choice, b1, s1)" "begins (b1 @ concat s1) [u, p]"
    by auto
  from ReadString_begins [OF r1(2)] obtain b2 s2 where
    r2: "ReadString [] b1 s1 = Some (Fprintln u, b2, s2)" "begins (b2 @ concat s2) [p]"
    by auto
  from ReadString_begins [OF r2(2)] obtain b3 s3 where
    r3: "ReadString [] b2 s2 = Some (Fprintln p, b3, s3)"
    by auto
  show ?thesis
    using r1(1) r2(1) r3 assms(2)
    by (auto simp: handleClient_dialogue_def handleClient_login_def greeting_def Let_def
             split: option.splits)
qed


lemma register_rejected:
  assumes "begins (concat segs) [choice, code]"
    and "ToLower (TrimSpace (Fprintln choice)) = ''register''"
    and "ReplaceAll (ReplaceAll (TrimSpace (Fprintln code)) (CHR ''['') []) (CHR '']'') [] \<noteq> key"
  shows "handleClient_dialogue key rows segs =
     (greeting @ [Fprintln ''Enter the server's registration code: '',
        Fprintln ''Invalid registration code. Closing connection.''], rows, Closed)"
proof -
  from ReadString_begins [of "[]" segs choice "[code]"] assms(1) obtain b1 s1 where
    r1: "ReadString [] [] segs = Some (Fprintln choice, b1, s1)"
        "begins (b1 @ concat s1) [code]"
    by auto
  from ReadString_begins [OF r1(2)] obtain b2 s2 where
    r2: "ReadString [] b1 s1 = Some (Fprintln code, b2, s2)"
    by auto
  show ?thesis
    using r1(1) r2(1) assms(2,3)
    by (simp add: handleClient_dialogue_def handleClient_register_def greeting_def Let_def)
qed

section \<open>The effect of broadcast\<close>

lemma broadcast_loop_fields:
  "clients (foldl (\<lambda>s (c, client). if c \<noteq> a then Write c m s else s) s xs) = clients s \<and>
   db (foldl (\<lambda>s (c, client). if c \<noteq> a then Write c m s else s) s xs) = db s \<and>
   goroutines (foldl (\<lambda>s (c, client). if c \<noteq> a then Write c m s else s) s xs) = goroutines s \<and>
   masterRegKey (foldl (\<lambda>s (c, client). if c \<noteq> a then Write c m s else s) s xs) = masterRegKey s"
  by (induction xs arbitrary: s) (auto simp: Write_def)

lemma broadcast_fields [simp]:
  "clients (broadcast m a s) = clients s"
  "db (broadcast m a s) = db s"
  "goroutines (broadcast m a s) = goroutines s"
  "masterRegKey (broadcast m a s) = masterRegKey s"
  by (simp_all add: broadcast_def broadcast_loop_fields)

lemma broadcast_loop_wire:
  "distinct (map fst xs) \<Longrightarrow>
   wire (foldl (\<lambda>s (c, client). if c \<noteq> a then Write c m s else s) s xs) c =
     (if c \<in> fst ` set xs \<and> c \<noteq> a then wire s c @ [m] else wire s c)"
  by (induction xs arbitrary: s) (auto simp: Write_def image_iff)

lemma broadcast_loop_wire_other:
  "c \<notin> fst ` set xs \<or> c = a \<Longrightarrow>
   wire (foldl (\<lambda>s (c, client). if c \<noteq> a then Write c m s else s) s xs) c = wire s c"
  by (induction xs arbitrary: s) (auto simp: Write_def image_iff)

lemma broadcast_wire:
  "distinct (map fst (clients s)) \<Longrightarrow>
   wire (broadcast m a s) c =
     (if c \<in> registered s \<and> c \<noteq> a then wire s c @ [Fprintln m] else wire s c)"
  by (simp add: broadcast_def registered_def broadcast_loop_wire)

lemma broadcast_wire_other:
  "c \<notin> registered s \<or> c = a \<Longrightarrow> wire (broadcast m a s) c = wire s c"
  by (simp add: broadcast_def registered_def broadcast_loop_wire_other)

section \<open>clients as a map\<close>

lemma map_put_fst:
  "map fst (map_put k v m) = (if k \<in> set (map fst m) then map fst m else map fst m @ [k])"
  by (induction k v m rule: map_put.induct) (simp_all del: set_map)

lemma map_put_keys: "fst ` set (map_put k v m) = insert k (fst ` set m)"
  using map_put_fst [of k v m, THEN arg_cong, of set] by (auto split: if_splits)

lemma map_put_distinct: "distinct (map fst m) \<Longrightarrow> distinct (map fst (map_put k v m))"
  using map_put_fst [of k v m] by (auto split: if_splits)

lemma map_put_set:
  "distinct (map fst m) \<Longrightarrow> (k', v') \<in> set (map_put k v m) \<Longrightarrow>
   (k', v') = (k, v) \<or> (k' \<noteq> k \<and> (k', v') \<in> set m)"
  by (induction k v m rule: map_put.induct) (auto simp: image_iff split: if_splits)

lemma map_delete_keys: "fst ` set (map_delete k m) = fst ` set m - {k}"
  by (auto simp: map_delete_def image_iff)

lemma map_delete_distinct: "distinct (map fst m) \<Longrightarrow> distinct (map fst (map_delete k m))"
  by (simp add: map_delete_def distinct_map_filter)

section \<open>The steps of a goroutine\<close>

lemma map_of_Some_key: "map_of m k = Some v \<Longrightarrow> k \<in> fst ` set m"
  by (simp add: domI dom_map_of_conv_image_fst [symmetric])

lemma dialogue_cases:
  assumes "handleClient_dialogue key rows segs = (out, rows', g)"
  shows "(rows' = rows \<or> (\<exists>usr h. usr \<notin> fst ` set rows \<and> rows' = rows @ [(usr, h)])) \<and>
         (g = Closed \<or> (\<exists>usr segs'. g = LoggedIn usr segs' \<and> rows' = rows \<and> usr \<in> fst ` set rows))"
  using assms
  by (auto simp: handleClient_dialogue_def handleClient_register_def handleClient_login_def
        INSERT_def SELECT_password_def Let_def
      split: option.splits if_splits sum.splits prod.splits dest: map_of_Some_key)

lemma handleClient_Accepted:
  assumes "goroutines s c = Accepted segs"
    and "handleClient_dialogue (masterRegKey s) (db s) segs = (out, rows, g)"
  shows "handleClient c s =
    s\<lparr>db := rows, wire := (wire s)(c := wire s c @ out), goroutines := (goroutines s)(c := g)\<rparr>"
  using assms by (simp add: handleClient_def)

lemma handleClient_Closed: "goroutines s c = Closed \<Longrightarrow> handleClient c s = s"
  by (simp add: handleClient_def)

lemma other_goroutine: "c \<noteq> a \<Longrightarrow> goroutines (handleClient c s) a = goroutines s a"
  by (simp add: handleClient_def split: goroutine.splits option.splits prod.splits)

lemma other_registered:
  "c \<noteq> a \<Longrightarrow> a \<in> registered (handleClient c s) \<longleftrightarrow> a \<in> registered s"
  by (simp add: handleClient_def registered_def map_put_keys map_delete_keys
      split: goroutine.splits option.splits prod.splits)

lemma other_wire:
  "c \<noteq> a \<Longrightarrow> a \<notin> registered s \<Longrightarrow> wire (handleClient c s) a = wire s a"
  by (simp add: handleClient_def broadcast_wire_other
      split: goroutine.splits option.splits prod.splits)


lemma consistent_main: "consistent (main key accepted)"
  by (simp add: consistent_def main_def)

lemma consistentI:
  assumes "distinct (map fst (clients s))"
    and "\<And>c client. (c, client) \<in> set (clients s) \<Longrightarrow>
           conn client = c \<and> in_clients (goroutines s c) = Some (username client)"
    and "\<And>c usr. authenticated (goroutines s c) = Some usr \<Longrightarrow> usr \<in> fst ` set (db s)"
  shows "consistent s"
  using assms by (simp add: consistent_def)

lemma consistent_distinct: "consistent s \<Longrightarrow> distinct (map fst (clients s))"
  by (simp add: consistent_def)

lemma consistent_entry:
  "consistent s \<Longrightarrow> (c, client) \<in> set (clients s) \<Longrightarrow>
   conn client = c \<and> in_clients (goroutines s c) = Some (username client)"
  by (simp add: consistent_def)

lemma consistent_authenticated:
  "consistent s \<Longrightarrow> authenticated (goroutines s c) = Some usr \<Longrightarrow> usr \<in> fst ` set (db s)"
  by (simp add: consistent_def)

lemma consistent_step:
  assumes "consistent s"
  shows "consistent (handleClient c s)"
proof (cases "goroutines s c")
  case (Accepted segs)
  obtain out rows g where d: "handleClient_dialogue (masterRegKey s) (db s) segs = (out, rows, g)"
    by (cases "handleClient_dialogue (masterRegKey s) (db s) segs") auto
  from dialogue_cases [OF d] have
    rows: "fst ` set (db s) \<subseteq> fst ` set rows"
    and g: "g = Closed \<or> (\<exists>usr segs'. g = LoggedIn usr segs' \<and> usr \<in> fst ` set rows)"
    by auto
  have h: "clients (handleClient c s) = clients s" "db (handleClient c s) = rows"
    "goroutines (handleClient c s) = (goroutines s)(c := g)"
    by (simp_all add: handleClient_Accepted [OF Accepted d])
  show ?thesis
  proof (rule consistentI)
    show "distinct (map fst (clients (handleClient c s)))"
      using assms by (simp add: h consistent_distinct)
  next
    fix c' client
    assume "(c', client) \<in> set (clients (handleClient c s))"
    then have e: "conn client = c' \<and> in_clients (goroutines s c') = Some (username client)"
      using consistent_entry [OF assms] by (simp add: h)
    with Accepted have "c' \<noteq> c" by auto
    with e show "conn client = c' \<and>
        in_clients (goroutines (handleClient c s) c') = Some (username client)"
      by (simp add: h)
  next
    fix c' usr
    assume a: "authenticated (goroutines (handleClient c s) c') = Some usr"
    show "usr \<in> fst ` set (db (handleClient c s))"
    proof (cases "c' = c")
      case True
      with a g show ?thesis by (auto simp: h intro: rev_image_eqI)
    next
      case False
      with a have "authenticated (goroutines s c') = Some usr" by (simp add: h)
      from consistent_authenticated [OF assms this] rows show ?thesis
        by (auto simp: h intro: rev_image_eqI)
    qed
  qed
next
  case (LoggedIn usr segs)
  have h: "clients (handleClient c s) = map_put c \<lparr>conn = c, username = usr\<rparr> (clients s)"
    "db (handleClient c s) = db s"
    "goroutines (handleClient c s) = (goroutines s)(c := Registered usr segs)"
    by (simp_all add: handleClient_def LoggedIn)
  show ?thesis
  proof (rule consistentI)
    show "distinct (map fst (clients (handleClient c s)))"
      using assms by (simp add: h consistent_distinct map_put_distinct)
  next
    fix c' client
    assume "(c', client) \<in> set (clients (handleClient c s))"
    then consider "(c', client) = (c, \<lparr>conn = c, username = usr\<rparr>)"
      | "c' \<noteq> c" "(c', client) \<in> set (clients s)"
      using map_put_set [OF consistent_distinct [OF assms]] by (auto simp: h)
    then show "conn client = c' \<and>
        in_clients (goroutines (handleClient c s) c') = Some (username client)"
    proof cases
      case 1
      then show ?thesis by (simp add: h)
    next
      case 2
      with consistent_entry [OF assms 2(2)] show ?thesis by (simp add: h)
    qed
  next
    fix c' usr'
    assume a: "authenticated (goroutines (handleClient c s) c') = Some usr'"
    then have "authenticated (goroutines s c') = Some usr'"
      using LoggedIn by (cases "c' = c") (simp_all add: h)
    from consistent_authenticated [OF assms this]
    show "usr' \<in> fst ` set (db (handleClient c s))" by (simp add: h)
  qed
next
  case (Registered usr segs)
  have h: "clients (handleClient c s) = clients s" "db (handleClient c s) = db s"
    "goroutines (handleClient c s) = (goroutines s)(c := Chatting usr segs)"
    by (simp_all add: handleClient_def Registered)
  show ?thesis
  proof (rule consistentI)
    show "distinct (map fst (clients (handleClient c s)))"
      using assms by (simp add: h consistent_distinct)
  next
    fix c' client
    assume "(c', client) \<in> set (clients (handleClient c s))"
    then have "conn client = c' \<and> in_clients (goroutines s c') = Some (username client)"
      using consistent_entry [OF assms] by (simp add: h)
    then show "conn client = c' \<and>
        in_clients (goroutines (handleClient c s) c') = Some (username client)"
      using Registered by (cases "c' = c") (simp_all add: h)
  next
    fix c' usr'
    assume a: "authenticated (goroutines (handleClient c s) c') = Some usr'"
    then have "authenticated (goroutines s c') = Some usr'"
      using Registered by (cases "c' = c") (simp_all add: h)
    from consistent_authenticated [OF assms this]
    show "usr' \<in> fst ` set (db (handleClient c s))" by (simp add: h)
  qed
next
  case (Chatting usr segs)
  show ?thesis
  proof (cases "Read 1024 segs")
    case None
    have h: "clients (handleClient c s) = map_delete c (clients s)" "db (handleClient c s) = db s"
      "goroutines (handleClient c s) = (goroutines s)(c := Leaving usr)"
      by (simp_all add: handleClient_def Chatting None)
    show ?thesis
    proof (rule consistentI)
      show "distinct (map fst (clients (handleClient c s)))"
        using assms by (simp add: h consistent_distinct map_delete_distinct)
    next
      fix c' client
      assume "(c', client) \<in> set (clients (handleClient c s))"
      then have "c' \<noteq> c" "(c', client) \<in> set (clients s)"
        by (auto simp: h map_delete_def)
      with consistent_entry [OF assms this(2)]
      show "conn client = c' \<and>
          in_clients (goroutines (handleClient c s) c') = Some (username client)"
        by (simp add: h)
    next
      fix c' usr'
      assume a: "authenticated (goroutines (handleClient c s) c') = Some usr'"
      then have "authenticated (goroutines s c') = Some usr'"
        using Chatting by (cases "c' = c") (simp_all add: h)
      from consistent_authenticated [OF assms this]
      show "usr' \<in> fst ` set (db (handleClient c s))" by (simp add: h)
    qed
  next
    case (Some r)
    obtain message segs' where r: "r = (message, segs')" by (cases r) auto
    have h: "clients (handleClient c s) = clients s" "db (handleClient c s) = db s"
      "goroutines (handleClient c s) = (goroutines s)(c := Chatting usr segs')"
      by (simp_all add: handleClient_def Chatting Some r)
    show ?thesis
    proof (rule consistentI)
      show "distinct (map fst (clients (handleClient c s)))"
        using assms by (simp add: h consistent_distinct)
    next
      fix c' client
      assume "(c', client) \<in> set (clients (handleClient c s))"
      then have "conn client = c' \<and> in_clients (goroutines s c') = Some (username client)"
        using consistent_entry [OF assms] by (simp add: h)
      then show "conn client = c' \<and>
          in_clients (goroutines (handleClient c s) c') = Some (username client)"
        using Chatting by (cases "c' = c") (simp_all add: h)
    next
      fix c' usr'
      assume a: "authenticated (goroutines (handleClient c s) c') = Some usr'"
      then have "authenticated (goroutines s c') = Some usr'"
        using Chatting by (cases "c' = c") (simp_all add: h)
      from consistent_authenticated [OF assms this]
      show "usr' \<in> fst ` set (db (handleClient c s))" by (simp add: h)
    qed
  qed
next
  case (Leaving usr)
  have h: "clients (handleClient c s) = clients s" "db (handleClient c s) = db s"
    "goroutines (handleClient c s) = (goroutines s)(c := Closed)"
    by (simp_all add: handleClient_def Leaving)
  show ?thesis
  proof (rule consistentI)
    show "distinct (map fst (clients (handleClient c s)))"
      using assms by (simp add: h consistent_distinct)
  next
    fix c' client
    assume "(c', client) \<in> set (clients (handleClient c s))"
    then have e: "conn client = c' \<and> in_clients (goroutines s c') = Some (username client)"
      using consistent_entry [OF assms] by (simp add: h)
    with Leaving have "c' \<noteq> c" by auto
    with e show "conn client = c' \<and>
        in_clients (goroutines (handleClient c s) c') = Some (username client)"
      by (simp add: h)
  next
    fix c' usr'
    assume a: "authenticated (goroutines (handleClient c s) c') = Some usr'"
    then have "authenticated (goroutines s c') = Some usr'"
      using Leaving by (cases "c' = c") (simp_all add: h)
    from consistent_authenticated [OF assms this]
    show "usr' \<in> fst ` set (db (handleClient c s))" by (simp add: h)
  qed
next
  case Closed
  with assms show ?thesis
    by (simp add: handleClient_Closed)
qed

section \<open>Schedules\<close>

lemma run_Nil [simp]: "run [] s = s"
  by (simp add: run_def)

lemma run_Cons [simp]: "run (c # cs) s = run cs (handleClient c s)"
  by (simp add: run_def)

lemma run_append: "run (xs @ ys) s = run ys (run xs s)"
  by (simp add: run_def)

lemma consistent_run: "consistent s \<Longrightarrow> consistent (run sched s)"
  by (induction sched arbitrary: s) (simp_all add: consistent_step)

lemma reachable_consistent: "consistent (run sched (main key accepted))"
  by (simp add: consistent_run consistent_main)

lemma others_run:
  "a \<notin> set sched \<Longrightarrow>
   goroutines (run sched s) a = goroutines s a \<and>
   (a \<in> registered (run sched s) \<longleftrightarrow> a \<in> registered s)"
  by (induction sched arbitrary: s) (auto simp: other_goroutine other_registered)

lemma closed_run:
  "goroutines s a = Closed \<Longrightarrow> a \<notin> registered s \<Longrightarrow>
   goroutines (run sched s) a = Closed \<and> a \<notin> registered (run sched s) \<and>
   wire (run sched s) a = wire s a"
proof (induction sched arbitrary: s)
  case Nil
  then show ?case by simp
next
  case (Cons c sched)
  show ?case
  proof (cases "c = a")
    case True
    with Cons show ?thesis by (simp add: handleClient_Closed)
  next
    case False
    with Cons.prems have "goroutines (handleClient c s) a = Closed"
      "a \<notin> registered (handleClient c s)" "wire (handleClient c s) a = wire s a"
      by (simp_all add: other_goroutine other_registered other_wire)
    with Cons.IH [of "handleClient c s"] show ?thesis by simp
  qed
qed



section \<open>Evaluating a run\<close>

lemmas evaluation =
  run_def main_def handleClient_def handleClient_dialogue_def handleClient_register_def
  handleClient_login_def ReadString.simps TrimSpace_def TrimLeft.simps TrimRight.simps
  spaceWidth_def lastSpaceWidth_def asciiSpace_def unicodeSpace_def lowerASCII_def
  ReplaceAll_def Fprintln_def Fprintln2_def INSERT_def SELECT_password_def broadcast_def
  Write_def map_delete_def generateRegistrationKey_def EncodeToString_def hextable_def
  Let_def registered_def begins_def greeting_def

lemma key0: "generateRegistrationKey key0 = ''0102030405060708090a''"
  by (simp add: key0_def generateRegistrationKey_def EncodeToString_def hextable_def)

lemma choices:
  "ToLower (TrimSpace (Fprintln ''register'')) = ''register''"
  "ToLower (TrimSpace (Fprintln ''login'')) = ''login''"
  by (simp_all add: evaluation)

lemma accepted0:
  "goroutines (main key0 accepted0) c = Accepted (accepted0 c)"
  "masterRegKey (main key0 accepted0) = ''0102030405060708090a''"
  "db (main key0 accepted0) = []"
  by (simp_all add: main_def key0)

lemma alice_registered:
  "last (wire (handleClient 1 (main key0 accepted0)) 1)
     = Fprintln ''Registration successful! You can now login.''"
  "db (handleClient 1 (main key0 accepted0)) = [(''alice'', hashPassword ''pw1'')]"
  by (simp_all add: evaluation accepted0_def key0_def)

lemma trimmed:
  "TrimSpace (Fprintln ''alice'') = ''alice''" "TrimSpace (Fprintln '' alice'') = ''alice''"
  "TrimSpace (Fprintln ''alice '') = ''alice''" "TrimSpace (Fprintln ''pw1'') = ''pw1''"
  "TrimSpace (Fprintln ''pw3'') = ''pw3''"
  by (simp_all add: evaluation)

text \<open>The digest of \<open>abc\<close>, the first test vector of the standard.\<close>

lemma hashPassword_abc:
  "hashPassword ''abc'' = ''ba7816bf8f01cfea414140de5dae2223b00361a396177a9cb410ff61f20015ad''"
  by code_simp

lemma digests_differ:
  "hashPassword (TrimSpace (Fprintln ''pw2'')) \<noteq> hashPassword (TrimSpace (Fprintln ''pw1''))"
  by code_simp

section \<open>The read loop\<close>

lemma Chatting_step:
  assumes "consistent s" "goroutines s a = Chatting usr segs"
    and "Read 1024 segs = Some (message, segs')"
  shows "wire (handleClient a s) c =
           (if c \<in> registered s \<and> c \<noteq> a then wire s c @ [Fprintln (usr @ '': '' @ message)]
            else wire s c)"
    and "goroutines (handleClient a s) a = Chatting usr segs'"
    and "registered (handleClient a s) = registered s"
    and "consistent (handleClient a s)"
proof -
  show "wire (handleClient a s) c =
           (if c \<in> registered s \<and> c \<noteq> a then wire s c @ [Fprintln (usr @ '': '' @ message)]
            else wire s c)"
    using assms(2,3) broadcast_wire [OF consistent_distinct [OF assms(1)]]
    by (simp add: handleClient_def)
  show "goroutines (handleClient a s) a = Chatting usr segs'"
    using assms(2,3) by (simp add: handleClient_def)
  show "registered (handleClient a s) = registered s"
    using assms(2,3) by (simp add: handleClient_def registered_def)
  show "consistent (handleClient a s)"
    by (rule consistent_step [OF assms(1)])
qed

section \<open>Fan-out\<close>

text \<open>
  C5. When a chatting session \<open>a\<close> reads a message, in any state the server can reach,
  the broadcast line is written once on the connection of every session in \<open>clients\<close>
  other than \<open>a\<close>, and nothing is written on the connection of \<open>a\<close> or of a connection
  that is not in \<open>clients\<close>.
\<close>
theorem broadcast_reaches_the_others:
  assumes "s = run sched (main key accepted)"
    and "goroutines s a = Chatting usr segs"
    and "Read 1024 segs = Some (message, segs')"
  shows "wire (handleClient a s) c =
     (if c \<in> registered s \<and> c \<noteq> a then wire s c @ [Fprintln (usr @ '': '' @ message)]
      else wire s c)"
proof -
  have "consistent s"
    using assms(1) by (simp add: reachable_consistent)
  then have "distinct (map fst (clients s))"
    by (rule consistent_distinct)
  from broadcast_wire [OF this] assms(2,3) show ?thesis
    by (simp add: handleClient_def)
qed

lemma chatting0:
  "goroutines chatting0 4 = Chatting ''bob'' [Fprintln ''hello'', replicate 1500 (CHR ''x'')]"
  "goroutines chatting0 3 = Chatting ''alice'' []"
  "registered chatting0 = {3, 4}"
  "wire chatting0 3 =
     greeting @ [Fprintln ''Username: '', Fprintln ''Password (typing not hidden): '',
       Fprintln ''Welcome back, alice!'', Fprintln ''bob has joined the chat'']"
  by (simp_all add: chatting0_def evaluation accepted0_def key0_def)

theorem broadcast_reaches_the_others_witness:
  "wire (handleClient 4 chatting0) 3 = wire chatting0 3 @ [Fprintln (''bob: '' @ Fprintln ''hello'')] \<and>
   wire (handleClient 4 chatting0) 4 = wire chatting0 4"
proof -
  have r: "Read 1024 [Fprintln ''hello'', replicate 1500 (CHR ''x'')]
             = Some (Fprintln ''hello'', [replicate 1500 (CHR ''x'')])"
    by (simp add: Fprintln_def)
  show ?thesis
    using broadcast_reaches_the_others [OF chatting0_def chatting0(1) r, of 3]
      broadcast_reaches_the_others [OF chatting0_def chatting0(1) r, of 4]
    by (simp add: chatting0(3))
qed

lemma consistent_chatting0: "consistent chatting0"
  unfolding chatting0_def by (rule reachable_consistent)

lemma Read_hello:
  "Read 1024 [Fprintln ''hello'', replicate 1500 (CHR ''x'')]
     = Some (Fprintln ''hello'', [replicate 1500 (CHR ''x'')])"
  by (simp add: Fprintln_def)

text \<open>
  C6. Specified: the read loop takes lines and broadcasts \<open>"<displayName>: <line>"\<close>,
  the line without its terminator. The loop takes what \<open>conn.Read\<close> returns instead. In
  \<open>chatting0\<close> the client of \<open>bob\<close> has sent the line \<open>hello\<close>: the message is the line
  with its newline, and what is written to \<open>alice\<close> is \<open>bob: hello\<close>, that newline and
  the newline of \<open>Fprintln\<close>, not \<open>bob: hello\<close> and one newline. The join notice, which
  goes through the same \<open>broadcast\<close>, ends in one newline.
\<close>

theorem line_relayed_with_its_terminator:
  "wire (handleClient 4 chatting0) 3 = wire chatting0 3 @ [Fprintln (''bob: hello'' @ [CHR 0x0A])] \<and>
   wire (handleClient 4 chatting0) 3 \<noteq> wire chatting0 3 @ [Fprintln ''bob: hello''] \<and>
   last (wire chatting0 3) = Fprintln ''bob has joined the chat''"
  using Chatting_step(1) [OF consistent_chatting0 chatting0(1) Read_hello, of 3]
  by (simp add: chatting0(3,4) Fprintln_def)

text \<open>
  C10. The payload of a broadcast in chat mode is the user name, a colon and a space, and
  one raw chunk of at most 1024 bytes, the first bytes that are pending on the connection,
  newlines included; of a segment longer than 1024 bytes the first two reads broadcast
  the first and the second 1024 bytes separately.
\<close>
theorem raw_chunks_of_1024_bytes:
  assumes "s = run sched (main key accepted)"
    and "goroutines s a = Chatting usr (p # ps)"
  shows "(\<forall>message segs'. Read 1024 (p # ps) = Some (message, segs') \<longrightarrow>
            length message \<le> 1024 \<and>
            take (length message) (concat (p # ps)) = message \<and>
            wire (handleClient a s) c =
              (if c \<in> registered s \<and> c \<noteq> a
               then wire s c @ [Fprintln (usr @ '': '' @ message)] else wire s c)) \<and>
         (1024 < length p \<longrightarrow>
            wire (run [a, a] s) c =
              (if c \<in> registered s \<and> c \<noteq> a
               then wire s c @ [Fprintln (usr @ '': '' @ take 1024 p),
                                Fprintln (usr @ '': '' @ take 1024 (drop 1024 p))]
               else wire s c))"
proof (intro conjI allI impI)
  have cs: "consistent s"
    using assms(1) by (simp add: reachable_consistent)
  {
    fix message segs'
    assume r: "Read 1024 (p # ps) = Some (message, segs')"
    from Read_Some [OF r] show "length message \<le> 1024" by simp
    from Read_Some [OF r] have "message @ concat segs' = concat (p # ps)" by simp
    then show "take (length message) (concat (p # ps)) = message"
      by (metis append_eq_conv_conj)
    from Chatting_step(1) [OF cs assms(2) r]
    show "wire (handleClient a s) c =
              (if c \<in> registered s \<and> c \<noteq> a
               then wire s c @ [Fprintln (usr @ '': '' @ message)] else wire s c)" .
  }
  assume long: "1024 < length p"
  then have r1: "Read 1024 (p # ps) = Some (take 1024 p, drop 1024 p # ps)"
    by auto
  have r2: "\<exists>segs'. Read 1024 (drop 1024 p # ps) = Some (take 1024 (drop 1024 p), segs')"
    using long by auto
  then obtain segs' where r2': "Read 1024 (drop 1024 p # ps) = Some (take 1024 (drop 1024 p), segs')"
    by blast
  note s1 = Chatting_step [OF cs assms(2) r1]
  note s2 = Chatting_step [OF s1(4) s1(2) r2']
  show "wire (run [a, a] s) c =
              (if c \<in> registered s \<and> c \<noteq> a
               then wire s c @ [Fprintln (usr @ '': '' @ take 1024 p),
                                Fprintln (usr @ '': '' @ take 1024 (drop 1024 p))]
               else wire s c)"
    using s1(1,3) s2(1) by simp
qed

lemma after_hello_run:
  "handleClient 4 chatting0 = run [1, 2, 3, 3, 3, 4, 4, 4, 4] (main key0 accepted0)"
  by (simp add: chatting0_def)

lemma after_hello:
  "goroutines (handleClient 4 chatting0) 4 = Chatting ''bob'' [replicate 1500 (CHR ''x'')]"
  "registered (handleClient 4 chatting0) = {3, 4}"
  using Chatting_step(2,3) [OF consistent_chatting0 chatting0(1) Read_hello]
  by (simp_all add: chatting0(3))

theorem raw_chunks_of_1024_bytes_witness:
  "wire (run [4, 4] (handleClient 4 chatting0)) 3 =
     wire (handleClient 4 chatting0) 3 @
       [Fprintln (''bob: '' @ replicate 1024 (CHR ''x'')),
        Fprintln (''bob: '' @ replicate 476 (CHR ''x''))] \<and>
   length (replicate 1024 (CHR ''x'')) \<le> 1024"
  using raw_chunks_of_1024_bytes [OF after_hello_run after_hello(1), of 3]
  by (simp add: after_hello(2))

section \<open>Leaving, and the names in the registry\<close>

lemma registered_in_clients:
  "consistent s \<Longrightarrow> c \<in> registered s \<Longrightarrow> in_clients (goroutines s c) \<noteq> None"
  by (auto simp: registered_def dest: consistent_entry)

lemma Leaving_step_wire:
  assumes "consistent s" "goroutines s a = Leaving usr"
  shows "wire (handleClient a s) c =
           (if c \<in> registered s then wire s c @ [Fprintln (usr @ '' has left the chat'')]
            else wire s c)"
    and "goroutines (handleClient a s) a = Closed"
    and "registered (handleClient a s) = registered s"
proof -
  from registered_in_clients [OF assms(1), of a] assms(2) have "a \<notin> registered s"
    by auto
  then show "wire (handleClient a s) c =
           (if c \<in> registered s then wire s c @ [Fprintln (usr @ '' has left the chat'')]
            else wire s c)"
    using assms(2) broadcast_wire [OF consistent_distinct [OF assms(1)]]
    by (auto simp: handleClient_def)
  show "goroutines (handleClient a s) a = Closed"
    using assms(2) by (simp add: handleClient_def)
  show "registered (handleClient a s) = registered s"
    using assms(2) by (simp add: handleClient_def registered_def)
qed

text \<open>
  C7. When the read of a chatting session \<open>a\<close> fails (its stream is closed or broken),
  in any state the server can reach, the session is deleted from \<open>clients\<close>; whatever
  the other goroutines do in between, the leave notice is then written exactly once on the
  connection of every session that is in \<open>clients\<close>, where \<open>a\<close> no longer is; and
  ever after the goroutine of \<open>a\<close> is closed and takes no further step, \<open>a\<close> is not
  in \<open>clients\<close>, and nothing more is written on its connection.
\<close>
theorem leaving_the_chat:
  assumes "s = run sched (main key accepted)"
    and "goroutines s a = Chatting usr segs"
    and "Read 1024 segs = None"
    and "a \<notin> set others"
  shows "a \<notin> registered (handleClient a s) \<and>
         a \<notin> registered (run others (handleClient a s)) \<and>
         (\<forall>c. wire (handleClient a (run others (handleClient a s))) c =
            (if c \<in> registered (run others (handleClient a s))
             then wire (run others (handleClient a s)) c @ [Fprintln (usr @ '' has left the chat'')]
             else wire (run others (handleClient a s)) c)) \<and>
         (\<forall>later.
            goroutines (run later (handleClient a (run others (handleClient a s)))) a = Closed \<and>
            a \<notin> registered (run later (handleClient a (run others (handleClient a s)))) \<and>
            wire (run later (handleClient a (run others (handleClient a s)))) a =
              wire (run others (handleClient a s)) a \<and>
            handleClient a (run later (handleClient a (run others (handleClient a s)))) =
              run later (handleClient a (run others (handleClient a s))))"
proof -
  define s1 where "s1 = handleClient a s"
  define s2 where "s2 = run others s1"
  define s3 where "s3 = handleClient a s2"
  have s1: "goroutines s1 a = Leaving usr" "a \<notin> registered s1"
    using assms(2,3) by (simp_all add: s1_def handleClient_def registered_def map_delete_keys)
  have s2: "goroutines s2 a = Leaving usr" "a \<notin> registered s2"
    using others_run [OF assms(4), of s1] s1 by (simp_all add: s2_def)
  have "s2 = run (sched @ a # others) (main key accepted)"
    by (simp add: s2_def s1_def assms(1) run_append)
  then have cs2: "consistent s2"
    by (simp add: reachable_consistent)
  note st = Leaving_step_wire [OF cs2 s2(1)]
  have s3: "goroutines s3 a = Closed" "a \<notin> registered s3" "wire s3 a = wire s2 a"
    using st(2,3) st(1) [of a] s2(2) by (simp_all add: s3_def)
  have "goroutines (run later s3) a = Closed \<and> a \<notin> registered (run later s3) \<and>
        wire (run later s3) a = wire s2 a \<and> handleClient a (run later s3) = run later s3" for later
    using closed_run [OF s3(1,2), of later] s3(3) by (simp add: handleClient_Closed)
  with s1(2) s2(2) st(1) show ?thesis
    unfolding s1_def [symmetric] s2_def [symmetric] s3_def [symmetric] by blast
qed

lemma alice_leaves:
  "registered (handleClient 3 chatting0) = {4}"
  "goroutines (handleClient 3 chatting0) 4
     = Chatting ''bob'' [Fprintln ''hello'', replicate 1500 (CHR ''x'')]"
  "consistent (handleClient 3 chatting0)"
proof -
  have "registered (handleClient 3 chatting0) = registered chatting0 - {3}"
    by (simp add: handleClient_def chatting0(2) registered_def map_delete_keys)
  then show "registered (handleClient 3 chatting0) = {4}"
    by (simp add: chatting0(3))
  show "goroutines (handleClient 3 chatting0) 4
     = Chatting ''bob'' [Fprintln ''hello'', replicate 1500 (CHR ''x'')]"
    by (simp add: other_goroutine chatting0(1))
  show "consistent (handleClient 3 chatting0)"
    by (rule consistent_step [OF consistent_chatting0])
qed

theorem leaving_the_chat_witness:
  "3 \<notin> registered (handleClient 3 chatting0) \<and>
   3 \<notin> registered (run [4] (handleClient 3 chatting0)) \<and>
   wire (handleClient 3 (run [4] (handleClient 3 chatting0))) 4 =
     wire (run [4] (handleClient 3 chatting0)) 4 @ [Fprintln (''alice'' @ '' has left the chat'')] \<and>
   goroutines (run [4, 3] (handleClient 3 (run [4] (handleClient 3 chatting0)))) 3 = Closed \<and>
   wire (run [4, 3] (handleClient 3 (run [4] (handleClient 3 chatting0)))) 3 =
     wire (run [4] (handleClient 3 chatting0)) 3"
proof -
  have r: "Read 1024 [] = None" by simp
  have o: "(3 :: Conn) \<notin> set [4]" by simp
  have "registered (run [4] (handleClient 3 chatting0)) = {4}"
    using Chatting_step(3) [OF alice_leaves(3,2) Read_hello] alice_leaves(1) by simp
  then have m: "4 \<in> registered (run [4] (handleClient 3 chatting0))" by simp
  from leaving_the_chat [OF chatting0_def chatting0(2) r o] m
  show ?thesis by presburger
qed

lemma in_clients_authenticated: "in_clients g = Some usr \<Longrightarrow> authenticated g = Some usr"
  by (cases g) auto

text \<open>
  C9 (as the code has it). In every state the server can reach, every entry of \<open>clients\<close>
  is filed under its own connection and its display name is the user name of a row of the
  table. (The name may be empty.)
\<close>
theorem sessions_have_stored_names:
  "\<forall>(c, client) \<in> set (clients (run sched (main key accepted))).
     conn client = c \<and> username client \<in> fst ` set (db (run sched (main key accepted)))"
proof -
  have cs: "consistent (run sched (main key accepted))"
    by (rule reachable_consistent)
  show ?thesis
  proof (clarify, intro conjI)
    fix c client
    assume m: "(c, client) \<in> set (clients (run sched (main key accepted)))"
    from consistent_entry [OF cs m] show "conn client = c" by simp
    from consistent_entry [OF cs m]
    have "authenticated (goroutines (run sched (main key accepted)) c) = Some (username client)"
      by (simp add: in_clients_authenticated)
    from consistent_authenticated [OF cs this]
    show "username client \<in> fst ` set (db (run sched (main key accepted)))" .
  qed
qed

lemma clients_chatting0:
  "clients chatting0 = [(3, \<lparr>conn = 3, username = ''alice''\<rparr>), (4, \<lparr>conn = 4, username = ''bob''\<rparr>)]"
  by (simp add: chatting0_def evaluation accepted0_def key0_def)

theorem sessions_have_stored_names_witness:
  "clients chatting0 = [(3, \<lparr>conn = 3, username = ''alice''\<rparr>), (4, \<lparr>conn = 4, username = ''bob''\<rparr>)] \<and>
   ''alice'' \<in> fst ` set (db chatting0) \<and> ''bob'' \<in> fst ` set (db chatting0)"
  using sessions_have_stored_names [of "[1, 2, 3, 3, 3, 4, 4, 4]" key0 accepted0, folded chatting0_def]
  by (simp add: clients_chatting0)

theorem empty_display_name_counterexample:
  "clients (run [11, 12, 12] (main key0 accepted0)) = [(12, \<lparr>conn = 12, username = []\<rparr>)]"
  by (simp add: evaluation accepted0_def key0_def)

section \<open>The registration code\<close>

lemma EncodeToString_hex: "set (EncodeToString src) \<subseteq> set hextable"
proof -
  have "hextable ! i \<in> set hextable" if "i < 16" for i
    using that by (intro nth_mem) (simp add: hextable_def)
  moreover have "of_char v div 16 < (16 :: nat)" "of_char v mod 16 < (16 :: nat)" for v :: char
    using nat_of_char_less_256 [of v] by arith+
  ultimately show ?thesis
    by (auto simp: EncodeToString_def)
qed

lemma key_without_brackets:
  "CHR ''['' \<notin> set (generateRegistrationKey key)" "CHR '']'' \<notin> set (generateRegistrationKey key)"
  using EncodeToString_hex [of key] set_take_subset [of 20 "EncodeToString key"]
  by (auto simp: generateRegistrationKey_def hextable_def)

lemma ReplaceAll_absent: "old \<notin> set s \<Longrightarrow> ReplaceAll s old new = s"
  by (induction s) (auto simp: ReplaceAll_def)

lemma ReplaceAll_append: "ReplaceAll (s @ t) old new = ReplaceAll s old new @ ReplaceAll t old new"
  by (simp add: ReplaceAll_def)

lemma TrimSpace_bracketed:
  "TrimSpace (Fprintln (CHR ''['' # k @ '']'')) = CHR ''['' # k @ '']''"
proof -
  have l: "TrimLeft (CHR ''['' # k @ [CHR '']'', CHR 0x0A]) = CHR ''['' # k @ [CHR '']'', CHR 0x0A]"
    by (subst TrimLeft.simps) (simp add: spaceWidth_def asciiSpace_def unicodeSpace_def)
  have r1: "lastSpaceWidth (CHR ''['' # k @ [CHR '']'', CHR 0x0A]) = 1"
    by (simp add: lastSpaceWidth_def asciiSpace_def)
  have r2: "lastSpaceWidth (CHR ''['' # k @ [CHR '']'']) = 0"
    by (simp add: lastSpaceWidth_def asciiSpace_def unicodeSpace_def)
  have "TrimRight (CHR ''['' # k @ [CHR '']'', CHR 0x0A]) = TrimRight (CHR ''['' # k @ [CHR '']''])"
    by (subst TrimRight.simps) (simp add: r1)
  also have "\<dots> = CHR ''['' # k @ [CHR '']'']"
    by (subst TrimRight.simps) (simp add: r2)
  finally show ?thesis
    by (simp add: TrimSpace_def Fprintln_def l)
qed

lemma bracketed_key_accepted:
  "ReplaceAll (ReplaceAll (TrimSpace (Fprintln (''['' @ generateRegistrationKey key @ '']'')))
     (CHR ''['') []) (CHR '']'') [] = generateRegistrationKey key"
proof -
  have "ReplaceAll (CHR ''['' # generateRegistrationKey key @ '']'') (CHR ''['') []
          = generateRegistrationKey key @ '']''"
    using ReplaceAll_append [of "''[''" "generateRegistrationKey key @ '']''" "CHR ''[''" "[]"]
      ReplaceAll_absent [of "CHR ''[''" "generateRegistrationKey key @ '']''" "[]"]
      key_without_brackets(1) [of key]
    by (simp add: ReplaceAll_def)
  moreover have "ReplaceAll (generateRegistrationKey key @ '']'') (CHR '']'') []
          = generateRegistrationKey key"
    using ReplaceAll_append [of "generateRegistrationKey key" "'']''" "CHR '']''" "[]"]
      ReplaceAll_absent [OF key_without_brackets(2) [of key], of "[]"]
    by (simp add: ReplaceAll_def)
  ultimately show ?thesis
    using TrimSpace_bracketed [of "generateRegistrationKey key"] by simp
qed


lemma register_accepted:
  assumes "begins (concat segs) [choice, code]"
    and "ToLower (TrimSpace (Fprintln choice)) = ''register''"
    and "ReplaceAll (ReplaceAll (TrimSpace (Fprintln code)) (CHR ''['') []) (CHR '']'') [] = key"
  shows "\<exists>more rows'. handleClient_dialogue key rows segs =
     (greeting @ [Fprintln ''Enter the server's registration code: '',
        Fprintln ''Enter your desired username: ''] @ more, rows', Closed)"
proof -
  from ReadString_begins [of "[]" segs choice "[code]"] assms(1) obtain b1 s1 where
    r1: "ReadString [] [] segs = Some (Fprintln choice, b1, s1)"
        "begins (b1 @ concat s1) [code]"
    by auto
  from ReadString_begins [OF r1(2)] obtain b2 s2 where
    r2: "ReadString [] b1 s1 = Some (Fprintln code, b2, s2)"
    by auto
  show ?thesis
    using r1(1) r2(1) assms(2,3)
    by (auto simp: handleClient_dialogue_def handleClient_register_def greeting_def Let_def
          split: option.splits sum.splits)
qed

section \<open>Credentials\<close>




lemma login_step:
  assumes "goroutines s l = Accepted segs"
    and "begins (concat segs) [choice, u, p]"
    and "ToLower (TrimSpace (Fprintln choice)) = ''login''"
  shows "\<exists>segs'.
     handleClient l s =
       (if SELECT_password (TrimSpace (Fprintln u)) (db s) = Some (hashPassword (TrimSpace (Fprintln p)))
        then s\<lparr>db := db s,
               wire := (wire s)(l := wire s l @ greeting @
                 [Fprintln ''Username: '', Fprintln ''Password (typing not hidden): '',
                  ''Welcome back, '' @ TrimSpace (Fprintln u) @ ''!'' @ [CHR 0x0A]]),
               goroutines := (goroutines s)(l := LoggedIn (TrimSpace (Fprintln u)) segs')\<rparr>
        else s\<lparr>db := db s,
               wire := (wire s)(l := wire s l @ greeting @
                 [Fprintln ''Username: '', Fprintln ''Password (typing not hidden): '',
                  Fprintln ''Invalid username or password.'']),
               goroutines := (goroutines s)(l := Closed)\<rparr>)"
proof -
  from login_dialogue [OF assms(2,3), of "masterRegKey s" "db s"] obtain segs' where
    d: "handleClient_dialogue (masterRegKey s) (db s) segs =
     (if SELECT_password (TrimSpace (Fprintln u)) (db s) = Some (hashPassword (TrimSpace (Fprintln p)))
      then (greeting @ [Fprintln ''Username: '', Fprintln ''Password (typing not hidden): '',
              ''Welcome back, '' @ TrimSpace (Fprintln u) @ ''!'' @ [CHR 0x0A]],
            db s, LoggedIn (TrimSpace (Fprintln u)) segs')
      else (greeting @ [Fprintln ''Username: '', Fprintln ''Password (typing not hidden): '',
              Fprintln ''Invalid username or password.''],
            db s, Closed))"
    by blast
  show ?thesis
    using handleClient_Accepted [OF assms(1)] d
    by (intro exI [of _ segs']) (simp split: if_splits)
qed

text \<open>
  SHA-256 maps all strings to 32 bytes, so it cannot tell all passwords apart, not even
  those that are made of the letter \<open>a\<close> only. What the server can promise of a password
  that differs from the registered one is a rejection when the digest differs.
\<close>

lemma EncodeToString_length: "length (EncodeToString src) = 2 * length src"
  by (induction src) (simp_all add: EncodeToString_def)

lemma Sum256_length: "length (Sum256 data) = 32"
  by (simp add: Sum256_def word_bytes_def del: blocks.simps split: prod.splits)

lemma hashPassword_collides:
  "\<exists>n m. n \<noteq> m \<and>
     hashPassword (replicate n (CHR ''a'')) = hashPassword (replicate m (CHR ''a''))"
proof (rule ccontr)
  assume "\<not> ?thesis"
  then have "inj (\<lambda>n. hashPassword (replicate n (CHR ''a'')))"
    by (auto simp: inj_def)
  moreover have "range (\<lambda>n. hashPassword (replicate n (CHR ''a'')))
      \<subseteq> {s. set s \<subseteq> UNIV \<and> length s = 64}"
    by (auto simp: hashPassword_def EncodeToString_length Sum256_length)
  then have "finite (range (\<lambda>n. hashPassword (replicate n (CHR ''a''))))"
    using finite_lists_length_eq [of "UNIV :: char set" 64] by (rule finite_subset) simp
  ultimately have "finite (UNIV :: nat set)"
    by (rule finite_imageD [rotated])
  then show False by simp
qed








text \<open>
  C3 (as the code has it). With the secret that \<open>generateRegistrationKey\<close> produced: a
  submitted line that differs from it after trimming white space and removing every
  \<open>[\<close> and \<open>]\<close> is rejected with the invalid-code message and the connection closed; a
  line that equals it after that, in particular the secret wrapped in brackets, is accepted
  and the user name is prompted for.
\<close>
theorem registration_code_checked:
  assumes "masterRegKey s = generateRegistrationKey key"
    and "goroutines s c = Accepted segs"
    and "begins (concat segs) [choice, code]"
    and "ToLower (TrimSpace (Fprintln choice)) = ''register''"
  shows "(ReplaceAll (ReplaceAll (TrimSpace (Fprintln code)) (CHR ''['') []) (CHR '']'') []
            \<noteq> masterRegKey s \<longrightarrow>
            wire (handleClient c s) c = wire s c @ greeting @
              [Fprintln ''Enter the server's registration code: '',
               Fprintln ''Invalid registration code. Closing connection.''] \<and>
            goroutines (handleClient c s) c = Closed \<and> db (handleClient c s) = db s) \<and>
         (ReplaceAll (ReplaceAll (TrimSpace (Fprintln code)) (CHR ''['') []) (CHR '']'') []
            = masterRegKey s \<or> code = ''['' @ masterRegKey s @ '']'' \<longrightarrow>
            (\<exists>more. wire (handleClient c s) c = wire s c @ greeting @
              [Fprintln ''Enter the server's registration code: '',
               Fprintln ''Enter your desired username: ''] @ more))"
proof (rule conjI; rule impI)
  assume "ReplaceAll (ReplaceAll (TrimSpace (Fprintln code)) (CHR ''['') []) (CHR '']'') []
            \<noteq> masterRegKey s"
  from register_rejected [OF assms(3,4) this, of "db s"] handleClient_Accepted [OF assms(2)]
  show "wire (handleClient c s) c = wire s c @ greeting @
              [Fprintln ''Enter the server's registration code: '',
               Fprintln ''Invalid registration code. Closing connection.''] \<and>
            goroutines (handleClient c s) c = Closed \<and> db (handleClient c s) = db s"
    by simp
next
  assume "ReplaceAll (ReplaceAll (TrimSpace (Fprintln code)) (CHR ''['') []) (CHR '']'') []
            = masterRegKey s \<or> code = ''['' @ masterRegKey s @ '']''"
  then have "ReplaceAll (ReplaceAll (TrimSpace (Fprintln code)) (CHR ''['') []) (CHR '']'') []
            = masterRegKey s"
    using bracketed_key_accepted [of key] assms(1) by auto
  from register_accepted [OF assms(3,4) this, of "db s"] obtain more rows' where
    "handleClient_dialogue (masterRegKey s) (db s) segs =
     (greeting @ [Fprintln ''Enter the server's registration code: '',
        Fprintln ''Enter your desired username: ''] @ more, rows', Closed)"
    by blast
  from handleClient_Accepted [OF assms(2) this]
  show "\<exists>more. wire (handleClient c s) c = wire s c @ greeting @
              [Fprintln ''Enter the server's registration code: '',
               Fprintln ''Enter your desired username: ''] @ more"
    by auto
qed

theorem registration_code_checked_witness:
  "wire (handleClient 10 (main key0 accepted0)) 10 = wire (main key0 accepted0) 10 @ greeting @
     [Fprintln ''Enter the server's registration code: '',
      Fprintln ''Invalid registration code. Closing connection.''] \<and>
   goroutines (handleClient 10 (main key0 accepted0)) 10 = Closed \<and>
   db (handleClient 10 (main key0 accepted0)) = db (main key0 accepted0) \<and>
   (\<exists>more. wire (handleClient 1 (main key0 accepted0)) 1 = wire (main key0 accepted0) 1 @ greeting @
      [Fprintln ''Enter the server's registration code: '',
       Fprintln ''Enter your desired username: ''] @ more)"
proof -
  have k: "masterRegKey (main key0 accepted0) = generateRegistrationKey key0"
    by (simp add: main_def)
  have b1: "begins (concat (accepted0 1)) [''register'', ''[0102030405060708090a]'']"
    and b10: "begins (concat (accepted0 10)) [''register'', ''0102030405060708090b'']"
    by (simp_all add: accepted0_def begins_def Fprintln_def)
  have wrong: "ReplaceAll (ReplaceAll (TrimSpace (Fprintln ''0102030405060708090b'')) (CHR ''['') [])
              (CHR '']'') [] \<noteq> masterRegKey (main key0 accepted0)"
    unfolding accepted0(2) by (simp add: evaluation)
  have wrapped: "''[0102030405060708090a]'' = ''['' @ masterRegKey (main key0 accepted0) @ '']''"
    unfolding accepted0(2) by simp
  from registration_code_checked [OF k accepted0(1) b10 choices(1)]
    registration_code_checked [OF k accepted0(1) b1 choices(1)] wrong wrapped
  show ?thesis by blast
qed

theorem brackets_anywhere_counterexample:
  "TrimSpace (Fprintln ''[[0102030405060708090a'') = ''[[0102030405060708090a'' \<and>
   ''[[0102030405060708090a'' \<noteq> masterRegKey (main key0 accepted0) \<and>
   ''[[0102030405060708090a'' \<noteq> ''['' @ masterRegKey (main key0 accepted0) @ '']'' \<and>
   wire (handleClient 9 (main key0 accepted0)) 9 = greeting @
     [Fprintln ''Enter the server's registration code: '',
      Fprintln ''Enter your desired username: '',
      Fprintln ''Enter your desired password (typing not hidden): '',
      Fprintln ''Registration successful! You can now login.'']"
  by (simp add: evaluation accepted0_def key0_def)

text \<open>
  C4. For the same login input, what is written on the connection when the user name is
  not in the table is the same, byte for byte, as when it is in the table and the password
  is wrong: the greeting, the two prompts and the one generic rejection line.
\<close>
theorem same_rejection_text:
  assumes "goroutines s1 c = Accepted segs" "goroutines s2 c = Accepted segs"
    and "begins (concat segs) [choice, u, p]"
    and "ToLower (TrimSpace (Fprintln choice)) = ''login''"
    and "SELECT_password (TrimSpace (Fprintln u)) (db s1) = None"
    and "SELECT_password (TrimSpace (Fprintln u)) (db s2) = Some stored"
    and "hashPassword (TrimSpace (Fprintln p)) \<noteq> stored"
  shows "wire (handleClient c s1) c = wire s1 c @ greeting @
           [Fprintln ''Username: '', Fprintln ''Password (typing not hidden): '',
            Fprintln ''Invalid username or password.''] \<and>
         wire (handleClient c s2) c = wire s2 c @ greeting @
           [Fprintln ''Username: '', Fprintln ''Password (typing not hidden): '',
            Fprintln ''Invalid username or password.''] \<and>
         goroutines (handleClient c s1) c = Closed \<and> goroutines (handleClient c s2) c = Closed"
  using login_step [OF assms(1,3,4)] login_step [OF assms(2,3,4)] assms(5,6,7)
  by auto

theorem same_rejection_text_witness:
  "wire (handleClient 5 (main key0 accepted0)) 5 = wire (main key0 accepted0) 5 @ greeting @
     [Fprintln ''Username: '', Fprintln ''Password (typing not hidden): '',
      Fprintln ''Invalid username or password.''] \<and>
   wire (handleClient 5 (handleClient 1 (main key0 accepted0))) 5 =
     wire (handleClient 1 (main key0 accepted0)) 5 @ greeting @
     [Fprintln ''Username: '', Fprintln ''Password (typing not hidden): '',
      Fprintln ''Invalid username or password.''] \<and>
   goroutines (handleClient 5 (main key0 accepted0)) 5 = Closed \<and>
   goroutines (handleClient 5 (handleClient 1 (main key0 accepted0))) 5 = Closed"
proof -
  have g: "goroutines (handleClient 1 (main key0 accepted0)) 5 = Accepted (accepted0 5)"
    by (simp add: other_goroutine accepted0)
  have b: "begins (concat (accepted0 5)) [''login'', ''alice'', ''pw2'']"
    by (simp add: accepted0_def begins_def Fprintln_def)
  have absent: "SELECT_password (TrimSpace (Fprintln ''alice'')) (db (main key0 accepted0)) = None"
    by (simp add: accepted0(3) SELECT_password_def)
  have present: "SELECT_password (TrimSpace (Fprintln ''alice'')) (db (handleClient 1 (main key0 accepted0)))
      = Some (hashPassword (TrimSpace (Fprintln ''pw1'')))"
    unfolding alice_registered(2) trimmed by (simp add: SELECT_password_def)
  show ?thesis
    by (rule same_rejection_text [OF accepted0(1) g b choices(2) absent present digests_differ])
qed







end
